theory Spec2Isabelle
  imports Main
begin

section \<open>ScriptSignal: listeners, connections and dispatch\<close>

text \<open>
  A shallow embedding of \<^verbatim>\<open>Source/CPPScriptSignal.hpp\<close>.

  A listener is a \<^verbatim>\<open>std::function<void(Parameters...)>\<close>. Calling it with the
  arguments \<open>'p\<close> acts on the program's state outside the signal (\<open>'w\<close>) and either
  returns or throws an exception \<open>'x\<close>. Listeners of this model do not call back into
  the signal they are registered with.
\<close>

type_synonym ('p, 'w, 'x) listener = "'p \<Rightarrow> 'w \<Rightarrow> 'x option \<times> 'w"

text \<open>
  \<^verbatim>\<open>struct Connection\<close>. The member \<^verbatim>\<open>Destroy\<close> is only ever the closure that
  \<^verbatim>\<open>Connect\<close> builds, \<^verbatim>\<open>[this, Index = Functions.size()] { Functions.erase(Functions.begin() + Index); }\<close>,
  so it is represented by the value it captured, \<open>Index\<close>.
\<close>

record Connection =
  Index :: nat
  isConnected :: bool

text \<open>
  The members of \<^verbatim>\<open>class ScriptSignal\<close> that the single-threaded operations use:
  \<^verbatim>\<open>Functions\<close>, \<^verbatim>\<open>Connections\<close> (a vector of pointers) and \<^verbatim>\<open>Idle\<close>. The
  \<open>Heap\<close> holds the \<^verbatim>\<open>Connection\<close> objects made by \<^verbatim>\<open>new\<close>: an address is a
  position in it, a cell is \<open>None\<close> once it was deleted. The mutex \<^verbatim>\<open>Current\<close> and the
  condition variable \<^verbatim>\<open>Condition\<close> belong to the interleaving model further down.
\<close>

record ('p, 'w, 'x) ScriptSignal =
  Functions :: "('p, 'w, 'x) listener list"
  Connections :: "nat list"
  Idle :: bool
  Heap :: "Connection option list"

text \<open>What C++ leaves undefined is a value of the model, never an unspecified HOL term.\<close>

datatype fault = EraseOutOfRange | DanglingConnection | DoubleDelete

text \<open>A default-constructed signal: both vectors empty, \<^verbatim>\<open>bool Idle = false\<close>.\<close>

definition new_signal :: "('p, 'w, 'x) ScriptSignal" where
  "new_signal = \<lparr>Functions = [], Connections = [], Idle = False, Heap = []\<rparr>"

text \<open>
  \<^verbatim>\<open>Connect\<close>: the new connection captures \<^verbatim>\<open>Functions.size()\<close> before the
  \<^verbatim>\<open>push_back\<close>, and starts with \<^verbatim>\<open>isConnected = true\<close>. The result is the pointer
  \<^verbatim>\<open>New\<close> and the signal after the call.
\<close>

definition Connect ::
  "('p, 'w, 'x) ScriptSignal \<Rightarrow> ('p, 'w, 'x) listener \<Rightarrow> nat \<times> ('p, 'w, 'x) ScriptSignal" where
  "Connect s Function =
     (let New = length (Heap s);
          obj = \<lparr>Index = length (Functions s), isConnected = True\<rparr>
      in (New, s\<lparr>Functions := Functions s @ [Function],
                 Connections := Connections s @ [New],
                 Heap := Heap s @ [Some obj]\<rparr>))"

text \<open>Dereferencing a \<^verbatim>\<open>Connection*\<close>: undefined unless the object is alive.\<close>

definition deref :: "('p, 'w, 'x) ScriptSignal \<Rightarrow> nat \<Rightarrow> fault + Connection" where
  "deref s h =
     (if h < length (Heap s)
      then (case Heap s ! h of None \<Rightarrow> Inl DanglingConnection | Some c \<Rightarrow> Inr c)
      else Inl DanglingConnection)"

definition Connected :: "('p, 'w, 'x) ScriptSignal \<Rightarrow> nat \<Rightarrow> fault + bool" where
  "Connected s h = (case deref s h of Inl e \<Rightarrow> Inl e | Inr c \<Rightarrow> Inr (isConnected c))"

text \<open>
  \<^verbatim>\<open>Functions.erase(Functions.begin() + Index)\<close>: the iterator must point at an
  element; otherwise the behaviour is undefined.
\<close>

definition erase :: "'a list \<Rightarrow> nat \<Rightarrow> fault + 'a list" where
  "erase xs i = (if i < length xs then Inr (take i xs @ drop (Suc i) xs) else Inl EraseOutOfRange)"

text \<open>\<^verbatim>\<open>Disconnect\<close>: \<^verbatim>\<open>if (isConnected) { Destroy(); isConnected = false; }\<close>.\<close>

definition Disconnect ::
  "('p, 'w, 'x) ScriptSignal \<Rightarrow> nat \<Rightarrow> fault + ('p, 'w, 'x) ScriptSignal" where
  "Disconnect s h =
     (case deref s h of
        Inl e \<Rightarrow> Inl e
      | Inr c \<Rightarrow>
          if isConnected c
          then (case erase (Functions s) (Index c) of
                  Inl e \<Rightarrow> Inl e
                | Inr fs \<Rightarrow>
                    Inr (s\<lparr>Functions := fs,
                           Heap := (Heap s)[h := Some (c\<lparr>isConnected := False\<rparr>)]\<rparr>))
          else Inr s)"

text \<open>
  The loop of \<^verbatim>\<open>Fire\<close>, \<^verbatim>\<open>for (const auto& Function : Functions) Function(Arguments...);\<close>.
  It returns the calls it made, in order, the exception that ended it (if any), and the
  outside state. An exception leaves the loop at once.
\<close>

fun invoke_all ::
  "('p, 'w, 'x) listener list \<Rightarrow> 'p \<Rightarrow> 'w \<Rightarrow>
     (('p, 'w, 'x) listener \<times> 'p) list \<times> 'x option \<times> 'w" where
  "invoke_all [] a w = ([], None, w)"
| "invoke_all (f # fs) a w =
     (case f a w of
        (Some e, w') \<Rightarrow> ([(f, a)], Some e, w')
      | (None, w') \<Rightarrow>
          (case invoke_all fs a w' of (cs, r, w'') \<Rightarrow> ((f, a) # cs, r, w'')))"

text \<open>
  What one call of \<^verbatim>\<open>Fire\<close> did: the listener calls in order, the exception that
  left the call (if any), whether \<^verbatim>\<open>Condition.notify_all()\<close> was executed, and the
  signal and the outside state afterwards.
\<close>

record ('p, 'w, 'x) fired =
  calls :: "(('p, 'w, 'x) listener \<times> 'p) list"
  raised :: "'x option"
  notified :: bool
  signal :: "('p, 'w, 'x) ScriptSignal"
  world :: 'w

text \<open>
  \<^verbatim>\<open>Fire\<close>, run without another thread in between (the mutex is free before the call and
  after it): return at once on an empty vector; otherwise the loop, and only after it
  \<^verbatim>\<open>Idle = true; Condition.notify_all();\<close>.
\<close>

definition Fire :: "('p, 'w, 'x) ScriptSignal \<Rightarrow> 'p \<Rightarrow> 'w \<Rightarrow> ('p, 'w, 'x) fired" where
  "Fire s Arguments w =
     (if Functions s = []
      then \<lparr>calls = [], raised = None, notified = False, signal = s, world = w\<rparr>
      else (case invoke_all (Functions s) Arguments w of
              (cs, Some e, w') \<Rightarrow>
                \<lparr>calls = cs, raised = Some e, notified = False, signal = s, world = w'\<rparr>
            | (cs, None, w') \<Rightarrow>
                \<lparr>calls = cs, raised = None, notified = True,
                 signal = s\<lparr>Idle := True\<rparr>, world = w'\<rparr>))"

text \<open>
  The destructor, \<^verbatim>\<open>for (const auto& Connection : Connections) delete Connection;\<close>.
  Deleting an object that is not alive is undefined.
\<close>

fun delete_all :: "nat list \<Rightarrow> Connection option list \<Rightarrow> fault + Connection option list" where
  "delete_all [] H = Inr H"
| "delete_all (a # as) H =
     (if a < length H \<and> H ! a \<noteq> None then delete_all as (H[a := None]) else Inl DoubleDelete)"

definition destructor :: "('p, 'w, 'x) ScriptSignal \<Rightarrow> fault + Connection option list" where
  "destructor s = delete_all (Connections s) (Heap s)"

subsection \<open>Sequences of calls by one client\<close>

text \<open>
  A client's calls on one signal. A listener's exception reaches the client, which goes on
  with its next call; undefined behaviour ends the run.
\<close>

datatype ('p, 'w, 'x) call =
  CallConnect "('p, 'w, 'x) listener"
| CallDisconnect nat
| CallFire 'p

fun apply_call ::
  "('p, 'w, 'x) call \<Rightarrow> ('p, 'w, 'x) ScriptSignal \<times> 'w \<Rightarrow>
     fault + (('p, 'w, 'x) ScriptSignal \<times> 'w)" where
  "apply_call (CallConnect f) (s, w) = Inr (snd (Connect s f), w)"
| "apply_call (CallDisconnect h) (s, w) =
     (case Disconnect s h of Inl e \<Rightarrow> Inl e | Inr s' \<Rightarrow> Inr (s', w))"
| "apply_call (CallFire a) (s, w) = Inr (signal (Fire s a w), world (Fire s a w))"

fun run_calls ::
  "('p, 'w, 'x) call list \<Rightarrow> ('p, 'w, 'x) ScriptSignal \<times> 'w \<Rightarrow>
     fault + (('p, 'w, 'x) ScriptSignal \<times> 'w)" where
  "run_calls [] sw = Inr sw"
| "run_calls (c # cs) sw =
     (case apply_call c sw of Inl e \<Rightarrow> Inl e | Inr sw' \<Rightarrow> run_calls cs sw')"

text \<open>Registering a list of listeners one after the other; the handles in the same order.\<close>

fun connect_all ::
  "('p, 'w, 'x) listener list \<Rightarrow> ('p, 'w, 'x) ScriptSignal \<Rightarrow>
     nat list \<times> ('p, 'w, 'x) ScriptSignal" where
  "connect_all [] s = ([], s)"
| "connect_all (f # fs) s =
     (case Connect s f of (h, s') \<Rightarrow>
        (case connect_all fs s' of (hs, s'') \<Rightarrow> (h # hs, s'')))"

text \<open>A listener that records who was called and with what, as a test double does.\<close>

definition recorder :: "nat \<Rightarrow> ('p, (nat \<times> 'p) list, 'x) listener" where
  "recorder n = (\<lambda>a w. (None, w @ [(n, a)]))"

text \<open>A listener that throws.\<close>

definition thrower :: "'x \<Rightarrow> ('p, 'w, 'x) listener" where
  "thrower e = (\<lambda>a w. (Some e, w))"

text \<open>
  The signal of the worked examples: \<^verbatim>\<open>ScriptSignal<std::string>\<close>, as in
  \<^verbatim>\<open>Examples/General.cpp\<close>, with recording listeners.
\<close>

type_synonym test_signal = "(string, (nat \<times> string) list, unit) ScriptSignal"

text \<open>
  Every connection the signal made is alive and is in \<^verbatim>\<open>Connections\<close>, in the order of
  creation.
\<close>

definition owns_all :: "('p, 'w, 'x) ScriptSignal \<Rightarrow> bool" where
  "owns_all s = (Connections s = [0..<length (Heap s)] \<and> list_all (\<lambda>c. c \<noteq> None) (Heap s))"

section \<open>Wait and Fire on two threads\<close>

text \<open>
  One thread calls \<^verbatim>\<open>Wait\<close> once; another makes the calls \<^verbatim>\<open>Fire(a)\<close> for the \<open>a\<close> of
  \<open>pending\<close>, one after the other. Each access to the shared members is a step of its
  own, executed atomically, and any interleaving of the two threads' steps is a run. A
  program counter names the statement its thread executes next. The listeners are called
  in one step: they do not touch the signal.

  \<^verbatim>\<open>Wait\<close>:
  \<^item> \<open>W_reset\<close>: \<^verbatim>\<open>Idle = false;\<close> (the mutex is not taken yet);
  \<^item> \<open>W_lock\<close>: \<^verbatim>\<open>std::unique_lock Lock(Current);\<close>;
  \<^item> \<open>W_check\<close>: the predicate of \<^verbatim>\<open>Condition.wait(Lock, [this] { return Idle; })\<close>, read
    with the mutex held: leave the wait when \<^verbatim>\<open>Idle\<close>, else release the mutex and block,
    in one step (as \<^verbatim>\<open>wait\<close> does);
  \<^item> \<open>W_blocked\<close>: blocked on the condition variable;
  \<^item> \<open>W_woken\<close>: woken, taking the mutex again before the predicate is read again;
  \<^item> \<open>W_unlock\<close>: the return, where \<^verbatim>\<open>Lock\<close> releases the mutex;
  \<^item> \<open>W_done\<close>: \<^verbatim>\<open>Wait\<close> has returned.
  The clock, and so the value \<^verbatim>\<open>Wait\<close> returns, is not part of the model.
\<close>

datatype wait_pc = W_reset | W_lock | W_check | W_blocked | W_woken | W_unlock | W_done

text \<open>
  \<^verbatim>\<open>Fire\<close>:
  \<^item> \<open>F_entry\<close>: \<^verbatim>\<open>if (Functions.empty()) return;\<close>;
  \<^item> \<open>F_invoke\<close>: the loop over \<^verbatim>\<open>Functions\<close>;
  \<^item> \<open>F_lock\<close>: \<^verbatim>\<open>std::lock_guard<std::mutex> Hold(Current);\<close>;
  \<^item> \<open>F_set\<close>: \<^verbatim>\<open>Idle = true;\<close>;
  \<^item> \<open>F_notify\<close>: \<^verbatim>\<open>Condition.notify_all();\<close>;
  \<^item> \<open>F_unlock\<close>: the end of the body, where \<^verbatim>\<open>Hold\<close> releases the mutex;
  \<^item> \<open>F_thrown\<close>: a listener's exception has left \<^verbatim>\<open>Fire\<close>; the caller's next step is
    its next call.
\<close>

datatype fire_pc = F_entry | F_invoke | F_lock | F_set | F_notify | F_unlock | F_thrown

datatype thread = Waiter | Firer

text \<open>What a step did: the statement it executed.\<close>

datatype event = Did_wait wait_pc | Did_fire fire_pc | Spurious_wakeup

record ('p, 'w, 'x) config =
  object :: "('p, 'w, 'x) ScriptSignal"
  env :: 'w
  Current :: "thread option"
  wpc :: wait_pc
  fpc :: fire_pc
  pending :: "'p list"

fun wait_at ::
  "wait_pc \<Rightarrow> ('p, 'w, 'x) config \<Rightarrow> (event \<times> ('p, 'w, 'x) config) option" where
  "wait_at W_reset c =
     Some (Did_wait W_reset, c\<lparr>object := (object c)\<lparr>Idle := False\<rparr>, wpc := W_lock\<rparr>)"
| "wait_at W_lock c =
     (if Current c = None
      then Some (Did_wait W_lock, c\<lparr>Current := Some Waiter, wpc := W_check\<rparr>)
      else None)"
| "wait_at W_check c =
     (if Idle (object c)
      then Some (Did_wait W_check, c\<lparr>wpc := W_unlock\<rparr>)
      else Some (Did_wait W_check, c\<lparr>Current := None, wpc := W_blocked\<rparr>))"
| "wait_at W_blocked c = None"
| "wait_at W_woken c =
     (if Current c = None
      then Some (Did_wait W_woken, c\<lparr>Current := Some Waiter, wpc := W_check\<rparr>)
      else None)"
| "wait_at W_unlock c = Some (Did_wait W_unlock, c\<lparr>Current := None, wpc := W_done\<rparr>)"
| "wait_at W_done c = None"

fun fire_at ::
  "fire_pc \<Rightarrow> ('p, 'w, 'x) config \<Rightarrow> (event \<times> ('p, 'w, 'x) config) option" where
  "fire_at F_entry c =
     (case pending c of
        [] \<Rightarrow> None
      | a # rest \<Rightarrow>
          if Functions (object c) = []
          then Some (Did_fire F_entry, c\<lparr>pending := rest\<rparr>)
          else Some (Did_fire F_entry, c\<lparr>fpc := F_invoke\<rparr>))"
| "fire_at F_invoke c =
     (case pending c of
        [] \<Rightarrow> None
      | a # rest \<Rightarrow>
          (case invoke_all (Functions (object c)) a (env c) of
             (cs, Some e, w') \<Rightarrow> Some (Did_fire F_invoke, c\<lparr>env := w', fpc := F_thrown\<rparr>)
           | (cs, None, w') \<Rightarrow> Some (Did_fire F_invoke, c\<lparr>env := w', fpc := F_lock\<rparr>)))"
| "fire_at F_lock c =
     (if Current c = None
      then Some (Did_fire F_lock, c\<lparr>Current := Some Firer, fpc := F_set\<rparr>)
      else None)"
| "fire_at F_set c =
     Some (Did_fire F_set, c\<lparr>object := (object c)\<lparr>Idle := True\<rparr>, fpc := F_notify\<rparr>)"
| "fire_at F_notify c =
     Some (Did_fire F_notify,
           c\<lparr>wpc := (if wpc c = W_blocked then W_woken else wpc c), fpc := F_unlock\<rparr>)"
| "fire_at F_unlock c =
     Some (Did_fire F_unlock, c\<lparr>Current := None, pending := tl (pending c), fpc := F_entry\<rparr>)"
| "fire_at F_thrown c =
     Some (Did_fire F_thrown, c\<lparr>pending := tl (pending c), fpc := F_entry\<rparr>)"

text \<open>
  A scheduler's choice: let the waiting thread or the firing thread execute its next
  statement, or wake the blocked waiter without a notification (which
  \<^verbatim>\<open>std::condition_variable::wait\<close> permits). A choice that is not enabled (a thread that
  has to wait for the mutex, is blocked, or has finished) gives \<open>None\<close>.
\<close>

datatype move = Run_waiter | Run_firer | Wake_spuriously

fun step :: "move \<Rightarrow> ('p, 'w, 'x) config \<Rightarrow> (event \<times> ('p, 'w, 'x) config) option" where
  "step Run_waiter c = wait_at (wpc c) c"
| "step Run_firer c = fire_at (fpc c) c"
| "step Wake_spuriously c =
     (if wpc c = W_blocked then Some (Spurious_wakeup, c\<lparr>wpc := W_woken\<rparr>) else None)"

fun exec ::
  "move list \<Rightarrow> ('p, 'w, 'x) config \<Rightarrow> (event list \<times> ('p, 'w, 'x) config) option" where
  "exec [] c = Some ([], c)"
| "exec (m # ms) c =
     (case step m c of
        None \<Rightarrow> None
      | Some (e, c') \<Rightarrow>
          (case exec ms c' of None \<Rightarrow> None | Some (es, c'') \<Rightarrow> Some (e # es, c'')))"

text \<open>
  The waiter is inside \<^verbatim>\<open>Wait\<close> and cannot leave it as things stand: it has yet to reset
  \<^verbatim>\<open>Idle\<close>, or it has and \<^verbatim>\<open>Idle\<close> is still \<^verbatim>\<open>false\<close>.
\<close>

definition awaiting :: "('p, 'w, 'x) config \<Rightarrow> bool" where
  "awaiting c =
     (wpc c = W_reset \<or>
      (wpc c = W_lock \<or> wpc c = W_check \<or> wpc c = W_blocked \<or> wpc c = W_woken)
        \<and> Idle (object c) = False)"

text \<open>Both threads at the start of their calls, the mutex free.\<close>

definition start ::
  "('p, 'w, 'x) ScriptSignal \<Rightarrow> 'w \<Rightarrow> 'p list \<Rightarrow> ('p, 'w, 'x) config" where
  "start s w as =
     \<lparr>object = s, env = w, Current = None, wpc = W_reset, fpc = F_entry, pending = as\<rparr>"

text \<open>A firing thread that has nothing to call, or nothing to call it on, stays at the entry.\<close>

definition idle_firer :: "('p, 'w, 'x) config \<Rightarrow> bool" where
  "idle_firer c = (fpc c = F_entry \<and> (Functions (object c) = [] \<or> pending c = []))"

section \<open>Facts about the single-threaded operations\<close>

subsection \<open>The dispatch loop\<close>

lemma invoke_all_returns:
  "invoke_all fs a w = (cs, None, w') \<Longrightarrow> cs = map (\<lambda>f. (f, a)) fs"
  by (induction fs arbitrary: w cs) (auto split: prod.splits option.splits)

lemma invoke_all_throws:
  "invoke_all pre a w = (cs, None, w1) \<Longrightarrow> f a w1 = (Some e, w2) \<Longrightarrow>
   invoke_all (pre @ f # post) a w = (cs @ [(f, a)], Some e, w2)"
  by (induction pre arbitrary: w cs) (auto split: prod.splits option.splits)

lemma Fire_calls:
  "raised (Fire s a w) = None \<Longrightarrow> calls (Fire s a w) = map (\<lambda>f. (f, a)) (Functions s)"
  by (auto simp: Fire_def split: prod.splits option.splits dest: invoke_all_returns)

lemma invoke_all_no_throw:
  "\<forall>f \<in> set fs. \<forall>w. fst (f a w) = None \<Longrightarrow> fst (snd (invoke_all fs a w)) = None"
proof (induction fs arbitrary: w)
  case Nil
  then show ?case by simp
next
  case (Cons f fs)
  obtain w' where f: "f a w = (None, w')"
    using Cons.prems by (cases "f a w") (auto dest: spec[of _ w])
  from Cons.prems have "\<forall>g \<in> set fs. \<forall>w. fst (g a w) = None" by simp
  from Cons.IH[OF this, of w'] f show ?case by (auto split: prod.splits)
qed

lemma Fire_returns:
  "\<forall>f \<in> set (Functions s). \<forall>w. fst (f a w) = None \<Longrightarrow> raised (Fire s a w) = None"
  using invoke_all_no_throw[of "Functions s" a w]
  by (auto simp: Fire_def split: prod.splits option.splits)

lemma Fire_frame: "Functions (signal (Fire s a w)) = Functions s \<and> Connections (signal (Fire s a w)) = Connections s \<and> Heap (signal (Fire s a w)) = Heap s"
  by (auto simp: Fire_def split: prod.splits option.splits)

subsection \<open>Connections as seen through their handles\<close>

lemma deref_Connect_new: "Connect s f = (h, s1) \<Longrightarrow> deref s1 h = Inr \<lparr>Index = length (Functions s), isConnected = True\<rparr>"
  by (auto simp: Connect_def deref_def Let_def)

lemma deref_Connect_old: "deref s h = Inr c \<Longrightarrow> deref (snd (Connect s f)) h = Inr c"
  by (auto simp: Connect_def deref_def Let_def nth_append split: if_splits option.splits)

lemma deref_Disconnect_other:
  "Disconnect s h' = Inr s' \<Longrightarrow> h \<noteq> h' \<Longrightarrow> deref s' h = deref s h"
  by (auto simp: Disconnect_def deref_def erase_def split: sum.splits if_splits option.splits)

lemma Disconnect_not_connected:
  "Connected s h = Inr False \<Longrightarrow> Disconnect s h = Inr s"
  by (auto simp: Disconnect_def Connected_def split: sum.splits)

lemma Disconnect_Connected:
  "Disconnect s h = Inr s' \<Longrightarrow> Connected s' h = Inr False"
  by (auto simp: Disconnect_def Connected_def deref_def erase_def split: sum.splits if_splits option.splits)

lemma Connected_Connect_old:
  "Connected s h = Inr b \<Longrightarrow> Connected (snd (Connect s f)) h = Inr b"
  by (auto simp: Connected_def deref_Connect_old split: sum.splits)

lemma Connected_Disconnect_other:
  "Disconnect s h' = Inr s' \<Longrightarrow> h \<noteq> h' \<Longrightarrow> Connected s' h = Connected s h"
  by (simp add: Connected_def deref_Disconnect_other)

lemma Connected_Fire: "Connected (signal (Fire s a w)) h = Connected s h"
  by (auto simp: Connected_def deref_def Fire_def split: prod.splits option.splits)

lemma Connected_apply_call:
  "apply_call c (s, w) = Inr (s', w') \<Longrightarrow> c \<noteq> CallDisconnect h \<Longrightarrow>
   Connected s h = Inr b \<Longrightarrow> Connected s' h = Inr b"
  by (cases c)
     (auto simp: Connected_Connect_old Connected_Disconnect_other Connected_Fire split: sum.splits)

lemma Connected_False_apply_call:
  "apply_call c (s, w) = Inr (s', w') \<Longrightarrow> Connected s h = Inr False \<Longrightarrow> Connected s' h = Inr False"
  using Connected_apply_call[of c s w s' w' h False]
  by (cases "c = CallDisconnect h") (auto simp: Disconnect_not_connected)

lemma Connected_run_calls:
  "run_calls cs (s, w) = Inr (s', w') \<Longrightarrow> CallDisconnect h \<notin> set cs \<Longrightarrow>
   Connected s h = Inr b \<Longrightarrow> Connected s' h = Inr b"
proof (induction cs arbitrary: s w)
  case Nil
  then show ?case by simp
next
  case (Cons c cs)
  then obtain s1 w1 where step: "apply_call c (s, w) = Inr (s1, w1)" and rest: "run_calls cs (s1, w1) = Inr (s', w')"
    by (auto split: sum.splits)
  from Cons.prems have "c \<noteq> CallDisconnect h" by auto
  with step Cons.prems have "Connected s1 h = Inr b" by (blast intro: Connected_apply_call)
  with Cons.IH rest Cons.prems show ?case by auto
qed

lemma Connected_False_run_calls:
  "run_calls cs (s, w) = Inr (s', w') \<Longrightarrow> Connected s h = Inr False \<Longrightarrow> Connected s' h = Inr False"
proof (induction cs arbitrary: s w)
  case Nil
  then show ?case by simp
next
  case (Cons c cs)
  then obtain s1 w1 where step: "apply_call c (s, w) = Inr (s1, w1)" and rest: "run_calls cs (s1, w1) = Inr (s', w')"
    by (auto split: sum.splits)
  with Cons.prems have "Connected s1 h = Inr False" by (blast intro: Connected_False_apply_call)
  with Cons.IH rest show ?case by auto
qed

lemma Disconnect_shape:
  assumes "Disconnect s h = Inr s'"
  shows "\<exists>c fs. deref s h = Inr c \<and>
       s' = s\<lparr>Functions := fs, Heap := (Heap s)[h := Some (c\<lparr>isConnected := False\<rparr>)]\<rparr>"
proof -
  from assms obtain c where c: "deref s h = Inr c"
    by (auto simp: Disconnect_def split: sum.splits)
  then have cell: "h < length (Heap s)" "Heap s ! h = Some c"
    by (auto simp: deref_def split: if_splits option.splits)
  show ?thesis
  proof (cases "isConnected c")
    case True
    with assms c obtain fs where
      "s' = s\<lparr>Functions := fs, Heap := (Heap s)[h := Some (c\<lparr>isConnected := False\<rparr>)]\<rparr>"
      by (auto simp: Disconnect_def split: sum.splits)
    with c show ?thesis by blast
  next
    case False
    with assms c have same: "s' = s" by (simp add: Disconnect_def)
    from False have "c\<lparr>isConnected := False\<rparr> = c" by simp
    with cell have "(Heap s)[h := Some (c\<lparr>isConnected := False\<rparr>)] = Heap s"
      by (simp add: list_update_same_conv)
    then have "s = s\<lparr>Functions := Functions s, Heap := (Heap s)[h := Some (c\<lparr>isConnected := False\<rparr>)]\<rparr>"
      by simp
    with same c show ?thesis by blast
  qed
qed

lemma erase_last_but_one: "erase (xs @ [x, y]) (length xs) = Inr (xs @ [y])"
  by (simp add: erase_def)

lemma erase_last: "erase (xs @ [x, y]) (Suc (length xs)) = Inr (xs @ [x])"
  by (simp add: erase_def)

lemma connect_all_append:
  "connect_all fs s = (hs, s') \<Longrightarrow>
   Functions s' = Functions s @ fs \<and> length hs = length fs \<and>
   (\<forall>h \<in> set hs. Connected s' h = Inr True) \<and>
   (\<forall>h b. Connected s h = Inr b \<longrightarrow> Connected s' h = Inr b)"
proof (induction fs arbitrary: s hs s')
  case Nil
  then show ?case by simp
next
  case (Cons f fs)
  obtain h s1 where c: "Connect s f = (h, s1)" by (cases "Connect s f")
  obtain hs1 s2 where r: "connect_all fs s1 = (hs1, s2)" by (cases "connect_all fs s1")
  from Cons.prems c r have eq: "hs = h # hs1" "s' = s2" by simp_all
  note IH = Cons.IH[OF r]
  from c have f1: "Functions s1 = Functions s @ [f]" by (auto simp: Connect_def Let_def)
  from c have h1: "Connected s1 h = Inr True" by (simp add: Connected_def deref_Connect_new)
  from c have old: "\<And>k b. Connected s k = Inr b \<Longrightarrow> Connected s1 k = Inr b"
    using Connected_Connect_old[of s _ _ f] by simp
  from IH f1 h1 old eq show ?case by auto
qed

lemma connect_all_deref_old:
  "connect_all fs s = (hs, s') \<Longrightarrow> deref s h = Inr c \<Longrightarrow> deref s' h = Inr c"
proof (induction fs arbitrary: s hs s')
  case Nil
  then show ?case by simp
next
  case (Cons f fs)
  obtain h1 s1 where c: "Connect s f = (h1, s1)" by (cases "Connect s f")
  obtain hs1 s2 where r: "connect_all fs s1 = (hs1, s2)" by (cases "connect_all fs s1")
  from Cons.prems(1) c r have eq: "s' = s2" by simp
  from c Cons.prems(2) have "deref s1 h = Inr c"
    using deref_Connect_old[of s h c f] by simp
  with Cons.IH[OF r] eq show ?case by simp
qed

lemma connect_all_nth:
  "connect_all fs s = (hs, s') \<Longrightarrow> i < length fs \<Longrightarrow>
   hs ! i = length (Heap s) + i \<and>
   deref s' (hs ! i) = Inr \<lparr>Index = length (Functions s) + i, isConnected = True\<rparr>"
proof (induction fs arbitrary: s hs s' i)
  case Nil
  then show ?case by simp
next
  case (Cons f fs)
  obtain h1 s1 where c: "Connect s f = (h1, s1)" by (cases "Connect s f")
  obtain hs1 s2 where r: "connect_all fs s1 = (hs1, s2)" by (cases "connect_all fs s1")
  from Cons.prems(1) c r have eq: "hs = h1 # hs1" "s' = s2" by simp_all
  from c have h1: "h1 = length (Heap s)" and len: "length (Heap s1) = Suc (length (Heap s))"
    "length (Functions s1) = Suc (length (Functions s))"
    by (auto simp: Connect_def Let_def)
  show ?case
  proof (cases i)
    case 0
    from c have "deref s1 h1 = Inr \<lparr>Index = length (Functions s), isConnected = True\<rparr>"
      by (rule deref_Connect_new)
    with r have "deref s2 h1 = Inr \<lparr>Index = length (Functions s), isConnected = True\<rparr>"
      by (rule connect_all_deref_old)
    with 0 eq h1 show ?thesis by simp
  next
    case (Suc k)
    with Cons.prems(2) have "k < length fs" by simp
    from Cons.IH[OF r this] Suc eq len show ?thesis by auto
  qed
qed

lemma erase_nth: "i < length xs \<Longrightarrow> erase xs i = Inr (take i xs @ drop (Suc i) xs)"
  by (simp add: erase_def)

subsection \<open>Ownership of the connection objects\<close>

lemma owns_all_new: "owns_all new_signal"
  by (simp add: owns_all_def new_signal_def)

lemma owns_all_Connect: "owns_all s \<Longrightarrow> owns_all (snd (Connect s f))"
  by (simp add: owns_all_def Connect_def Let_def)

lemma owns_all_Disconnect:
  assumes "owns_all s" and "Disconnect s h = Inr s'"
  shows "owns_all s'"
proof -
  from assms(2) obtain c fs where
    s': "s' = s\<lparr>Functions := fs, Heap := (Heap s)[h := Some (c\<lparr>isConnected := False\<rparr>)]\<rparr>"
    by (blast dest: Disconnect_shape)
  have "set ((Heap s)[h := Some (c\<lparr>isConnected := False\<rparr>)])
      \<subseteq> insert (Some (c\<lparr>isConnected := False\<rparr>)) (set (Heap s))"
    by (rule set_update_subset_insert)
  with assms(1) have "list_all (\<lambda>c. c \<noteq> None) ((Heap s)[h := Some (c\<lparr>isConnected := False\<rparr>)])"
    by (auto simp: owns_all_def list_all_iff)
  with assms(1) s' show ?thesis by (simp add: owns_all_def)
qed

lemma owns_all_Fire: "owns_all s \<Longrightarrow> owns_all (signal (Fire s a w))"
  by (simp add: owns_all_def Fire_frame)

lemma owns_all_apply_call: "apply_call c (s, w) = Inr (s', w') \<Longrightarrow> owns_all s \<Longrightarrow> owns_all s'"
  by (cases c) (auto simp: owns_all_Connect owns_all_Fire split: sum.splits dest: owns_all_Disconnect)

lemma owns_all_run_calls: "run_calls cs (s, w) = Inr (s', w') \<Longrightarrow> owns_all s \<Longrightarrow> owns_all s'"
proof (induction cs arbitrary: s w)
  case Nil
  then show ?case by simp
next
  case (Cons c cs)
  then obtain s1 w1 where step: "apply_call c (s, w) = Inr (s1, w1)"
    and rest: "run_calls cs (s1, w1) = Inr (s', w')"
    by (auto split: sum.splits)
  from step Cons.prems(2) have "owns_all s1" by (rule owns_all_apply_call)
  with rest show ?case by (rule Cons.IH)
qed

lemma delete_all_upt:
  "k \<le> length H \<Longrightarrow> list_all (\<lambda>c. c \<noteq> None) (drop k H) \<Longrightarrow>
   delete_all [k..<length H] H = Inr (take k H @ replicate (length H - k) None)"
proof (induction "length H - k" arbitrary: k H)
  case 0
  then show ?case by simp
next
  case (Suc n)
  then have lt: "k < length H" by simp
  then have "drop k H = H ! k # drop (Suc k) H" by (simp add: Cons_nth_drop_Suc)
  with Suc.prems(2) have alive: "H ! k \<noteq> None"
    and tail: "list_all (\<lambda>c. c \<noteq> None) (drop (Suc k) H)" by simp_all
  let ?H = "H[k := None]"
  have d: "drop (Suc k) ?H = drop (Suc k) H" by simp
  from tail have a: "list_all (\<lambda>c. c \<noteq> None) (drop (Suc k) ?H)" by (simp only: d)
  have n: "n = length ?H - Suc k" using Suc.hyps(2) by simp
  have le: "Suc k \<le> length ?H" using lt by simp
  have IH: "delete_all [Suc k..<length ?H] ?H = Inr (take (Suc k) ?H @ replicate (length ?H - Suc k) None)"
    by (rule Suc.hyps(1)[OF n le a])
  have t: "take (Suc k) ?H = take k H @ [None]"
    using lt by (simp add: take_Suc_conv_app_nth)
  have r: "replicate (length H - k) (None :: Connection option) = None # replicate (length H - Suc k) None"
    using lt by (metis Suc_diff_Suc replicate_Suc)
  have "delete_all [k..<length H] H = delete_all [Suc k..<length ?H] ?H"
    using lt alive by (simp add: upt_conv_Cons)
  with IH t r show ?case by simp
qed

lemma destructor_owns_all: "owns_all s \<Longrightarrow> destructor s = Inr (replicate (length (Heap s)) None)"
  using delete_all_upt[of 0 "Heap s"] by (simp add: owns_all_def destructor_def)

subsection \<open>What holds before a second disconnection\<close>

text \<open>
  \<^verbatim>\<open>Fire\<close> leaves the outside state that the loop over \<^verbatim>\<open>Functions\<close> leaves.
\<close>

lemma Fire_world: "world (Fire s a w) = snd (snd (invoke_all (Functions s) a w))"
  by (auto simp: Fire_def split: prod.splits option.splits)

text \<open>
  After any sequence of \<^verbatim>\<open>Connect\<close> calls on a new signal, every handle is connected,
  \<^verbatim>\<open>Functions\<close> holds the listeners in the order of registration and a \<^verbatim>\<open>Fire\<close> that
  returns has called each of them once, in that order. The first \<^verbatim>\<open>Disconnect\<close> after
  that, of whichever handle, removes its own listener and no other.
\<close>

lemma Fire_after_connects:
  assumes "connect_all fs new_signal = (hs, s)"
  shows "Functions s = fs \<and> length hs = length fs
       \<and> (\<forall>h \<in> set hs. Connected s h = Inr True)
       \<and> (raised (Fire s a w) = None \<longrightarrow> calls (Fire s a w) = map (\<lambda>f. (f, a)) fs)
       \<and> (\<forall>i < length fs. \<exists>t. Disconnect s (hs ! i) = Inr t
             \<and> Connected t (hs ! i) = Inr False
             \<and> Functions t = take i fs @ drop (Suc i) fs
             \<and> (\<forall>j < length fs. j \<noteq> i \<longrightarrow> Connected t (hs ! j) = Inr True)
             \<and> (raised (Fire t a w) = None \<longrightarrow>
                  calls (Fire t a w) = map (\<lambda>f. (f, a)) (take i fs @ drop (Suc i) fs)))"
proof -
  from connect_all_append[OF assms] have F: "Functions s = fs" and l: "length hs = length fs"
    and C: "\<forall>h \<in> set hs. Connected s h = Inr True"
    by (simp_all add: new_signal_def)
  have fire: "raised (Fire s a w) = None \<longrightarrow> calls (Fire s a w) = map (\<lambda>f. (f, a)) fs"
    using Fire_calls[of s a w] F by simp
  have one: "\<exists>t. Disconnect s (hs ! i) = Inr t
             \<and> Connected t (hs ! i) = Inr False
             \<and> Functions t = take i fs @ drop (Suc i) fs
             \<and> (\<forall>j < length fs. j \<noteq> i \<longrightarrow> Connected t (hs ! j) = Inr True)
             \<and> (raised (Fire t a w) = None \<longrightarrow>
                  calls (Fire t a w) = map (\<lambda>f. (f, a)) (take i fs @ drop (Suc i) fs))"
    if i: "i < length fs" for i
  proof -
    from connect_all_nth[OF assms i] have hi: "hs ! i = i"
      by (simp add: new_signal_def)
    from connect_all_nth[OF assms i] have d: "deref s (hs ! i) = Inr \<lparr>Index = i, isConnected = True\<rparr>"
      by (auto simp: new_signal_def)
    from i F have e: "erase (Functions s) i = Inr (take i fs @ drop (Suc i) fs)"
      by (simp add: erase_nth)
    obtain t where t: "Disconnect s (hs ! i) = Inr t"
      and Ft: "Functions t = take i fs @ drop (Suc i) fs"
      by (simp add: Disconnect_def d e)
    from t have k: "Connected t (hs ! i) = Inr False" by (rule Disconnect_Connected)
    have others: "\<forall>j < length fs. j \<noteq> i \<longrightarrow> Connected t (hs ! j) = Inr True"
    proof (intro allI impI)
      fix j assume j: "j < length fs" and ne: "j \<noteq> i"
      from connect_all_nth[OF assms j] have "hs ! j = j" by (simp add: new_signal_def)
      with hi ne have "hs ! j \<noteq> hs ! i" by simp
      with t have "Connected t (hs ! j) = Connected s (hs ! j)"
        by (rule Connected_Disconnect_other)
      moreover from j l C have "Connected s (hs ! j) = Inr True" by simp
      ultimately show "Connected t (hs ! j) = Inr True" by simp
    qed
    have f: "raised (Fire t a w) = None \<longrightarrow>
        calls (Fire t a w) = map (\<lambda>f. (f, a)) (take i fs @ drop (Suc i) fs)"
      using Fire_calls[of t a w] Ft by simp
    show ?thesis
      by (rule exI[of _ t], intro conjI) (rule t k Ft others f)+
  qed
  from one have all: "\<forall>i < length fs. \<exists>t. Disconnect s (hs ! i) = Inr t
             \<and> Connected t (hs ! i) = Inr False
             \<and> Functions t = take i fs @ drop (Suc i) fs
             \<and> (\<forall>j < length fs. j \<noteq> i \<longrightarrow> Connected t (hs ! j) = Inr True)
             \<and> (raised (Fire t a w) = None \<longrightarrow>
                  calls (Fire t a w) = map (\<lambda>f. (f, a)) (take i fs @ drop (Suc i) fs))"
    by blast
  show ?thesis
    by (intro conjI) (rule F l C fire all)+
qed

text \<open>
  Connecting the same callable twice, to a signal in any state, gives two different
  handles and two entries; the first \<^verbatim>\<open>Disconnect\<close> of either returns and leaves the
  other handle connected and one entry.
\<close>

lemma Connect_twice_first_disconnect:
  assumes "Connect s f = (h1, s1)" and "Connect s1 f = (h2, s2)"
  shows "h1 \<noteq> h2 \<and> Functions s2 = Functions s @ [f, f]
    \<and> Connected s2 h1 = Inr True \<and> Connected s2 h2 = Inr True
    \<and> (raised (Fire s2 a w) = None \<longrightarrow>
         calls (Fire s2 a w) = map (\<lambda>g. (g, a)) (Functions s) @ [(f, a), (f, a)])
    \<and> (\<exists>t. Disconnect s2 h1 = Inr t \<and> Connected t h1 = Inr False \<and> Connected t h2 = Inr True
           \<and> Functions t = Functions s @ [f]
           \<and> (raised (Fire t a w) = None \<longrightarrow>
                calls (Fire t a w) = map (\<lambda>g. (g, a)) (Functions s) @ [(f, a)]))
    \<and> (\<exists>t. Disconnect s2 h2 = Inr t \<and> Connected t h2 = Inr False \<and> Connected t h1 = Inr True
           \<and> Functions t = Functions s @ [f]
           \<and> (raised (Fire t a w) = None \<longrightarrow>
                calls (Fire t a w) = map (\<lambda>g. (g, a)) (Functions s) @ [(f, a)]))"
proof -
  from assms have h: "h1 = length (Heap s)" "h2 = Suc (length (Heap s))"
    by (auto simp: Connect_def Let_def)
  from assms have s2: "s2 = s\<lparr>Functions := Functions s @ [f, f],
      Connections := Connections s @ [h1, h2],
      Heap := Heap s @ [Some \<lparr>Index = length (Functions s), isConnected = True\<rparr>,
                        Some \<lparr>Index = Suc (length (Functions s)), isConnected = True\<rparr>]\<rparr>"
    by (auto simp: Connect_def Let_def)
  have d1: "deref s2 h1 = Inr \<lparr>Index = length (Functions s), isConnected = True\<rparr>"
    and d2: "deref s2 h2 = Inr \<lparr>Index = Suc (length (Functions s)), isConnected = True\<rparr>"
    by (simp_all add: s2 h deref_def nth_append)
  have F: "Functions s2 = Functions s @ [f, f]" by (simp add: s2)
  have c: "Connected s2 h1 = Inr True" "Connected s2 h2 = Inr True"
    by (simp_all add: Connected_def d1 d2)
  have fire2: "raised (Fire s2 a w) = None \<longrightarrow>
      calls (Fire s2 a w) = map (\<lambda>g. (g, a)) (Functions s) @ [(f, a), (f, a)]"
    using Fire_calls[of s2 a w] by (simp add: F)
  obtain t1 where t1: "Disconnect s2 h1 = Inr t1" and Ft1: "Functions t1 = Functions s @ [f]"
    by (simp add: Disconnect_def d1 F erase_last_but_one)
  obtain t2 where t2: "Disconnect s2 h2 = Inr t2" and Ft2: "Functions t2 = Functions s @ [f]"
    by (simp add: Disconnect_def d2 F erase_last)
  from h have ne: "h1 \<noteq> h2" by simp
  have k1: "Connected t1 h1 = Inr False" using t1 by (rule Disconnect_Connected)
  have k2: "Connected t2 h2 = Inr False" using t2 by (rule Disconnect_Connected)
  have o1: "Connected t1 h2 = Inr True"
    using Connected_Disconnect_other[OF t1, of h2] ne c by simp
  have o2: "Connected t2 h1 = Inr True"
    using Connected_Disconnect_other[OF t2, of h1] ne c by simp
  have fire_t1: "raised (Fire t1 a w) = None \<longrightarrow>
      calls (Fire t1 a w) = map (\<lambda>g. (g, a)) (Functions s) @ [(f, a)]"
    using Fire_calls[of t1 a w] by (simp add: Ft1)
  have fire_t2: "raised (Fire t2 a w) = None \<longrightarrow>
      calls (Fire t2 a w) = map (\<lambda>g. (g, a)) (Functions s) @ [(f, a)]"
    using Fire_calls[of t2 a w] by (simp add: Ft2)
  have A: "\<exists>t. Disconnect s2 h1 = Inr t \<and> Connected t h1 = Inr False \<and> Connected t h2 = Inr True
           \<and> Functions t = Functions s @ [f]
           \<and> (raised (Fire t a w) = None \<longrightarrow>
                calls (Fire t a w) = map (\<lambda>g. (g, a)) (Functions s) @ [(f, a)])"
    by (intro exI[of _ t1] conjI) (rule t1 k1 o1 Ft1 fire_t1)+
  have B: "\<exists>t. Disconnect s2 h2 = Inr t \<and> Connected t h2 = Inr False \<and> Connected t h1 = Inr True
           \<and> Functions t = Functions s @ [f]
           \<and> (raised (Fire t a w) = None \<longrightarrow>
                calls (Fire t a w) = map (\<lambda>g. (g, a)) (Functions s) @ [(f, a)])"
    by (intro exI[of _ t2] conjI) (rule t2 k2 o2 Ft2 fire_t2)+
  show ?thesis by (intro conjI) (rule ne F c fire2 A B)+
qed

text \<open>
  Once the first of the two handles is disconnected, \<^verbatim>\<open>Disconnect\<close> on the second
  erases past the end of \<^verbatim>\<open>Functions\<close>, whatever the signal held before.
\<close>

lemma Disconnect_second_of_pair:
  assumes "Connect s f = (h1, s1)" and "Connect s1 f = (h2, s2)" and "Disconnect s2 h1 = Inr t"
  shows "Connected t h2 = Inr True \<and> Disconnect t h2 = Inl EraseOutOfRange"
proof -
  from assms(1,2) have h: "h1 = length (Heap s)" "h2 = Suc (length (Heap s))"
    by (auto simp: Connect_def Let_def)
  from assms(1,2) have s2: "s2 = s\<lparr>Functions := Functions s @ [f, f],
      Connections := Connections s @ [h1, h2],
      Heap := Heap s @ [Some \<lparr>Index = length (Functions s), isConnected = True\<rparr>,
                        Some \<lparr>Index = Suc (length (Functions s)), isConnected = True\<rparr>]\<rparr>"
    by (auto simp: Connect_def Let_def)
  have d1: "deref s2 h1 = Inr \<lparr>Index = length (Functions s), isConnected = True\<rparr>"
    and d2: "deref s2 h2 = Inr \<lparr>Index = Suc (length (Functions s)), isConnected = True\<rparr>"
    by (simp_all add: s2 h deref_def nth_append)
  have F: "Functions s2 = Functions s @ [f, f]" by (simp add: s2)
  from assms(3) have Ft: "Functions t = Functions s @ [f]"
    by (simp add: Disconnect_def d1 F erase_last_but_one) auto
  from h have ne: "h2 \<noteq> h1" by simp
  from assms(3) ne have dt: "deref t h2 = deref s2 h2" by (rule deref_Disconnect_other)
  with d2 have c: "Connected t h2 = Inr True" by (simp add: Connected_def)
  from dt d2 Ft have "Disconnect t h2 = Inl EraseOutOfRange"
    by (simp add: Disconnect_def erase_def)
  with c show ?thesis by simp
qed

section \<open>The claims about one thread\<close>

text \<open>
  C1. Each \<^verbatim>\<open>Disconnect\<close> should remove the listener of its own connection and no other,
  in whatever order connections are disconnected. The code erases the position that was
  the end of \<^verbatim>\<open>Functions\<close> when the connection was made. After \<open>A\<close>, \<open>B\<close>, \<open>C\<close> are
  connected (handles 0, 1, 2) and \<open>A\<close> is disconnected, disconnecting \<open>B\<close> erases position
  1, which by then holds \<open>C\<close>: \<^verbatim>\<open>Fire\<close> calls \<open>B\<close>, whose handle says it is disconnected,
  and never \<open>C\<close>, whose handle says it is connected. With only \<open>A\<close> and \<open>B\<close>, the second
  \<^verbatim>\<open>Disconnect\<close> erases past the end of the vector.
\<close>

theorem Disconnect_stale_index:
  "run_calls [CallConnect (recorder 0), CallConnect (recorder 1), CallConnect (recorder 2),
              CallDisconnect 0, CallDisconnect 1, CallFire ''x''] (new_signal :: test_signal, [])
     = Inr (\<lparr>Functions = [recorder 1], Connections = [0, 1, 2], Idle = True,
             Heap = [Some \<lparr>Index = 0, isConnected = False\<rparr>,
                     Some \<lparr>Index = 1, isConnected = False\<rparr>,
                     Some \<lparr>Index = 2, isConnected = True\<rparr>]\<rparr>, [(1, ''x'')])
   \<and> run_calls [CallConnect (recorder 0), CallConnect (recorder 1),
                CallDisconnect 0, CallDisconnect 1] (new_signal :: test_signal, [])
     = Inl EraseOutOfRange"
  by (simp add: Connect_def new_signal_def Let_def Disconnect_def deref_def erase_def Fire_def
      recorder_def numeral_2_eq_2)

text \<open>
  C2. \<^verbatim>\<open>Fire\<close> should call every listener whose connection is still connected, once
  each, in the order of registration. It calls what \<^verbatim>\<open>Functions\<close> holds, and
  \<^verbatim>\<open>Disconnect\<close> erases by the captured position. After \<open>A\<close> and \<open>B\<close> are connected
  (handles 0 and 1), \<open>A\<close> is disconnected, \<open>C\<close> is connected (handle 2, captured position
  1) and \<open>B\<close> is disconnected, the erased position 1 held \<open>C\<close>: handle 1 is disconnected
  and handle 2 is connected, yet \<^verbatim>\<open>Fire\<close> calls \<open>B\<close> and never \<open>C\<close>. No step of this run is
  undefined.
\<close>

theorem Fire_skips_connected_listener:
  "run_calls [CallConnect (recorder 0), CallConnect (recorder 1), CallDisconnect 0,
              CallConnect (recorder 2), CallDisconnect 1] (new_signal :: test_signal, [])
     = Inr (\<lparr>Functions = [recorder 1], Connections = [0, 1, 2], Idle = False,
             Heap = [Some \<lparr>Index = 0, isConnected = False\<rparr>,
                     Some \<lparr>Index = 1, isConnected = False\<rparr>,
                     Some \<lparr>Index = 1, isConnected = True\<rparr>]\<rparr>, [])
   \<and> Connected (\<lparr>Functions = [recorder 1], Connections = [0, 1, 2], Idle = False,
             Heap = [Some \<lparr>Index = 0, isConnected = False\<rparr>,
                     Some \<lparr>Index = 1, isConnected = False\<rparr>,
                     Some \<lparr>Index = 1, isConnected = True\<rparr>]\<rparr> :: test_signal) 1 = Inr False
   \<and> Connected (\<lparr>Functions = [recorder 1], Connections = [0, 1, 2], Idle = False,
             Heap = [Some \<lparr>Index = 0, isConnected = False\<rparr>,
                     Some \<lparr>Index = 1, isConnected = False\<rparr>,
                     Some \<lparr>Index = 1, isConnected = True\<rparr>]\<rparr> :: test_signal) 2 = Inr True
   \<and> Fire (\<lparr>Functions = [recorder 1], Connections = [0, 1, 2], Idle = False,
             Heap = [Some \<lparr>Index = 0, isConnected = False\<rparr>,
                     Some \<lparr>Index = 1, isConnected = False\<rparr>,
                     Some \<lparr>Index = 1, isConnected = True\<rparr>]\<rparr> :: test_signal) ''x'' []
     = \<lparr>calls = [(recorder 1, ''x'')], raised = None, notified = True,
        signal = \<lparr>Functions = [recorder 1], Connections = [0, 1, 2], Idle = True,
             Heap = [Some \<lparr>Index = 0, isConnected = False\<rparr>,
                     Some \<lparr>Index = 1, isConnected = False\<rparr>,
                     Some \<lparr>Index = 1, isConnected = True\<rparr>]\<rparr>,
        world = [(1, ''x'')]\<rparr>"
  by (simp add: Connect_def new_signal_def Let_def Disconnect_def deref_def erase_def Fire_def
      Connected_def recorder_def numeral_2_eq_2)

text \<open>
  C3. Two connections of the same callable should be independent: disconnecting one
  should not affect the other. After the callable is connected twice (handles 0 and 1)
  and handle 0 is disconnected, handle 1 is still connected and one entry is left, but
  \<^verbatim>\<open>Disconnect\<close> on handle 1 erases position 1 of a vector of length 1. With a third
  listener connected after the two, the same two calls erase that listener instead: the
  callable is still called by \<^verbatim>\<open>Fire\<close> with both of its handles disconnected, and the
  third listener, still connected, never is.
\<close>

theorem Disconnect_breaks_twin_handle:
  "run_calls [CallConnect (recorder 7), CallConnect (recorder 7), CallDisconnect 0]
       (new_signal :: test_signal, [])
     = Inr (\<lparr>Functions = [recorder 7], Connections = [0, 1], Idle = False,
             Heap = [Some \<lparr>Index = 0, isConnected = False\<rparr>,
                     Some \<lparr>Index = 1, isConnected = True\<rparr>]\<rparr>, [])
   \<and> Connected (\<lparr>Functions = [recorder 7], Connections = [0, 1], Idle = False,
             Heap = [Some \<lparr>Index = 0, isConnected = False\<rparr>,
                     Some \<lparr>Index = 1, isConnected = True\<rparr>]\<rparr> :: test_signal) 1 = Inr True
   \<and> Disconnect (\<lparr>Functions = [recorder 7], Connections = [0, 1], Idle = False,
             Heap = [Some \<lparr>Index = 0, isConnected = False\<rparr>,
                     Some \<lparr>Index = 1, isConnected = True\<rparr>]\<rparr> :: test_signal) 1
     = Inl EraseOutOfRange
   \<and> run_calls [CallConnect (recorder 7), CallConnect (recorder 7), CallConnect (recorder 8),
                CallDisconnect 0, CallDisconnect 1, CallFire ''x''] (new_signal :: test_signal, [])
     = Inr (\<lparr>Functions = [recorder 7], Connections = [0, 1, 2], Idle = True,
             Heap = [Some \<lparr>Index = 0, isConnected = False\<rparr>,
                     Some \<lparr>Index = 1, isConnected = False\<rparr>,
                     Some \<lparr>Index = 2, isConnected = True\<rparr>]\<rparr>, [(7, ''x'')])"
  by (simp add: Connect_def new_signal_def Let_def Disconnect_def deref_def erase_def Fire_def
      Connected_def recorder_def numeral_2_eq_2)

text \<open>
  C4. When the listeners before \<open>f\<close> return and \<open>f\<close> throws \<open>e\<close>, \<^verbatim>\<open>Fire\<close> lets \<open>e\<close> out
  unchanged, has called the listeners up to \<open>f\<close> and none of those after it, has not
  executed \<^verbatim>\<open>notify_all\<close>, and leaves the signal, \<^verbatim>\<open>Idle\<close> included, as it was.
\<close>

theorem Fire_listener_throws:
  assumes "Functions s = pre @ f # post"
    and "invoke_all pre a w = (cs, None, w1)"
    and "f a w1 = (Some e, w2)"
  shows "Fire s a w = \<lparr>calls = map (\<lambda>g. (g, a)) pre @ [(f, a)], raised = Some e,
                       notified = False, signal = s, world = w2\<rparr>"
proof -
  from assms(2) have "cs = map (\<lambda>g. (g, a)) pre" by (rule invoke_all_returns)
  moreover have "invoke_all (pre @ f # post) a w = (cs @ [(f, a)], Some e, w2)"
    using assms(2,3) by (rule invoke_all_throws[of pre a w cs w1 f e w2 post])
  ultimately show ?thesis using assms(1)
    by (simp add: Fire_def)
qed

theorem Fire_listener_throws_witness:
  "Fire \<lparr>Functions = [recorder 0, thrower (), recorder 2], Connections = [0, 1, 2], Idle = False,
         Heap = [Some \<lparr>Index = 0, isConnected = True\<rparr>, Some \<lparr>Index = 1, isConnected = True\<rparr>,
                 Some \<lparr>Index = 2, isConnected = True\<rparr>]\<rparr> ''Blue'' []
   = \<lparr>calls = [(recorder 0, ''Blue''), (thrower (), ''Blue'')], raised = Some (),
      notified = False,
      signal = \<lparr>Functions = [recorder 0, thrower (), recorder 2], Connections = [0, 1, 2], Idle = False,
         Heap = [Some \<lparr>Index = 0, isConnected = True\<rparr>, Some \<lparr>Index = 1, isConnected = True\<rparr>,
                 Some \<lparr>Index = 2, isConnected = True\<rparr>]\<rparr>,
      world = [(0, ''Blue'')]\<rparr>"
proof -
  let ?s = "\<lparr>Functions = [recorder 0, thrower (), recorder 2], Connections = [0, 1, 2], Idle = False,
         Heap = [Some \<lparr>Index = 0, isConnected = True\<rparr>, Some \<lparr>Index = 1, isConnected = True\<rparr>,
                 Some \<lparr>Index = 2, isConnected = True\<rparr>]\<rparr> :: test_signal"
  have 1: "Functions ?s = [recorder 0] @ thrower () # [recorder 2]" by simp
  have 2: "invoke_all [recorder 0 :: (string, (nat \<times> string) list, unit) listener] ''Blue'' []
           = ([(recorder 0, ''Blue'')], None, [(0, ''Blue'')])"
    by (simp add: recorder_def)
  have 3: "(thrower () :: (string, (nat \<times> string) list, unit) listener) ''Blue'' [(0, ''Blue'')] = (Some (), [(0, ''Blue'')])"
    by (simp add: thrower_def)
  from Fire_listener_throws[of ?s "[recorder 0]" "thrower ()" "[recorder 2]" "''Blue''" "[]"
      "[(recorder 0, ''Blue'')]" "[(0, ''Blue'')]" "()" "[(0, ''Blue'')]"] 1 2 3
  show ?thesis by simp
qed

text \<open>
  C6. Once \<^verbatim>\<open>Disconnect\<close> on a handle has returned, calling it again returns and changes
  nothing, \<^verbatim>\<open>Connected\<close> is false, and both stay so after any further calls on the signal,
  \<^verbatim>\<open>Connect\<close> and \<^verbatim>\<open>Disconnect\<close> of this or any other handle included.
\<close>

theorem Disconnect_idempotent:
  assumes "Disconnect s h = Inr s1"
    and "run_calls cs (s1, w) = Inr (s2, w2)"
  shows "Disconnect s1 h = Inr s1 \<and> Connected s1 h = Inr False
       \<and> Connected s2 h = Inr False \<and> Disconnect s2 h = Inr s2"
proof -
  from assms(1) have c1: "Connected s1 h = Inr False" by (rule Disconnect_Connected)
  with assms(2) have c2: "Connected s2 h = Inr False" by (rule Connected_False_run_calls)
  from c1 c2 show ?thesis by (simp add: Disconnect_not_connected)
qed

theorem Disconnect_idempotent_witness:
  "\<exists>s s1 s2 w2.
     run_calls [CallConnect (recorder 0), CallConnect (recorder 1)] (new_signal :: test_signal, []) = Inr (s, [])
   \<and> Disconnect s 1 = Inr s1
   \<and> run_calls [CallFire ''Blue'', CallDisconnect 1, CallConnect (recorder 2), CallDisconnect 1] (s1, []) = Inr (s2, w2)
   \<and> Disconnect s1 1 = Inr s1 \<and> Connected s1 1 = Inr False
   \<and> Connected s2 1 = Inr False \<and> Disconnect s2 1 = Inr s2"
proof -
  obtain s where s: "run_calls [CallConnect (recorder 0), CallConnect (recorder 1)] (new_signal :: test_signal, []) = Inr (s, [])"
    by (simp add: Connect_def new_signal_def Let_def)
  then have sv: "s = \<lparr>Functions = [recorder 0, recorder 1], Connections = [0, 1], Idle = False,
      Heap = [Some \<lparr>Index = 0, isConnected = True\<rparr>, Some \<lparr>Index = 1, isConnected = True\<rparr>]\<rparr>"
    by (simp add: Connect_def new_signal_def Let_def)
  obtain s1 where s1: "Disconnect s 1 = Inr s1"
    by (simp add: sv Disconnect_def deref_def erase_def)
  then have s1v: "s1 = \<lparr>Functions = [recorder 0], Connections = [0, 1], Idle = False,
      Heap = [Some \<lparr>Index = 0, isConnected = True\<rparr>, Some \<lparr>Index = 1, isConnected = False\<rparr>]\<rparr>"
    by (simp add: sv Disconnect_def deref_def erase_def)
  obtain s2 w2 where s2: "run_calls [CallFire ''Blue'', CallDisconnect 1, CallConnect (recorder 2), CallDisconnect 1] (s1, []) = Inr (s2, w2)"
    by (simp add: s1v Disconnect_def deref_def erase_def Fire_def recorder_def Connect_def Let_def)
  from Disconnect_idempotent[OF s1 s2] s s1 s2 show ?thesis by blast
qed

text \<open>
  C9. On a signal reached from a new one by any calls, a \<^verbatim>\<open>Disconnect\<close> that returns
  leaves \<^verbatim>\<open>Connections\<close> and \<^verbatim>\<open>Idle\<close> as they were and changes nothing but
  \<^verbatim>\<open>Functions\<close> and the flag of its own connection object. The handle is still in
  \<^verbatim>\<open>Connections\<close>, every object in \<^verbatim>\<open>Connections\<close> is still alive, and the destructor
  deletes them all.
\<close>

theorem Disconnect_keeps_Connections:
  assumes "run_calls cs (new_signal, w) = Inr (s, w1)"
    and "Disconnect s h = Inr s'"
  shows "Connections s' = Connections s \<and> h \<in> set (Connections s') \<and> Idle s' = Idle s
    \<and> (\<exists>c. deref s h = Inr c \<and>
         s' = s\<lparr>Functions := Functions s', Heap := (Heap s)[h := Some (c\<lparr>isConnected := False\<rparr>)]\<rparr>)
    \<and> (\<forall>a \<in> set (Connections s'). \<exists>c. deref s' a = Inr c)
    \<and> destructor s' = Inr (replicate (length (Heap s')) None)"
proof -
  from assms(1) have o: "owns_all s" by (rule owns_all_run_calls) (rule owns_all_new)
  from o assms(2) have o': "owns_all s'" by (rule owns_all_Disconnect)
  from assms(2) obtain c fs where c: "deref s h = Inr c"
    and s0: "s' = s\<lparr>Functions := fs, Heap := (Heap s)[h := Some (c\<lparr>isConnected := False\<rparr>)]\<rparr>"
    by (blast dest: Disconnect_shape)
  from s0 have "fs = Functions s'" by simp
  with s0 have s': "s' = s\<lparr>Functions := Functions s', Heap := (Heap s)[h := Some (c\<lparr>isConnected := False\<rparr>)]\<rparr>"
    by simp
  from s0 have eq: "Connections s' = Connections s" "Idle s' = Idle s" "length (Heap s') = length (Heap s)"
    by simp_all
  from c have "h < length (Heap s)" by (auto simp: deref_def split: if_splits)
  with o eq have mem: "h \<in> set (Connections s')" by (simp add: owns_all_def)
  from o' have alive: "\<forall>a \<in> set (Connections s'). \<exists>c. deref s' a = Inr c"
    by (auto simp: owns_all_def deref_def list_all_length split: option.splits)
  from o' have "destructor s' = Inr (replicate (length (Heap s')) None)" by (rule destructor_owns_all)
  with eq mem c s' alive show ?thesis by blast
qed

theorem Disconnect_keeps_Connections_witness:
  "\<exists>s s'. run_calls [CallConnect (recorder 0), CallConnect (recorder 1)] (new_signal :: test_signal, [])
             = Inr (s, [])
     \<and> Disconnect s 0 = Inr s' \<and> Connections s' = Connections s \<and> 0 \<in> set (Connections s')
     \<and> destructor s' = Inr (replicate (length (Heap s')) None)"
proof -
  obtain s where s: "run_calls [CallConnect (recorder 0), CallConnect (recorder 1)]
      (new_signal :: test_signal, []) = Inr (s, [])"
    by (simp add: Connect_def new_signal_def Let_def)
  then have sv: "s = \<lparr>Functions = [recorder 0, recorder 1], Connections = [0, 1], Idle = False,
      Heap = [Some \<lparr>Index = 0, isConnected = True\<rparr>, Some \<lparr>Index = 1, isConnected = True\<rparr>]\<rparr>"
    by (simp add: Connect_def new_signal_def Let_def)
  obtain s' where d: "Disconnect s 0 = Inr s'"
    by (simp add: sv Disconnect_def deref_def erase_def)
  note T = Disconnect_keeps_Connections[OF s d]
  from T have a: "Connections s' = Connections s" by (elim conjE)
  from T have b: "0 \<in> set (Connections s')" by (elim conjE)
  from T have c: "destructor s' = Inr (replicate (length (Heap s')) None)" by (elim conjE)
  show ?thesis
    by (intro exI[of _ s] exI[of _ s'] conjI) (rule s d a b c)+
qed

text \<open>
  C10. The handle that \<^verbatim>\<open>Connect\<close> returns is connected, and it stays connected through
  any further calls that return, as long as none of them is \<^verbatim>\<open>Disconnect\<close> on this
  handle.
\<close>

theorem Connect_starts_Connected:
  assumes "Connect s f = (h, s1)"
    and "CallDisconnect h \<notin> set cs"
    and "run_calls cs (s1, w) = Inr (s2, w2)"
  shows "Connected s1 h = Inr True \<and> Connected s2 h = Inr True"
proof -
  from assms(1) have c1: "Connected s1 h = Inr True"
    by (simp add: Connected_def deref_Connect_new)
  with assms(2,3) show ?thesis
    by (blast intro: Connected_run_calls)
qed

theorem Connect_starts_Connected_witness:
  "Connected (snd (Connect (new_signal :: test_signal) (recorder 0))) 0 = Inr True
   \<and> (\<exists>s2 w2. run_calls [CallConnect (recorder 1), CallFire ''Blue'', CallDisconnect 1]
         (snd (Connect (new_signal :: test_signal) (recorder 0)), []) = Inr (s2, w2)
       \<and> Connected s2 0 = Inr True \<and> Connected s2 1 = Inr False)"
proof -
  let ?s0 = "new_signal :: (string, (nat \<times> string) list, unit) ScriptSignal"
  let ?cs = "[CallConnect (recorder 1), CallFire ''Blue'', CallDisconnect 1] :: (string, (nat \<times> string) list, unit) call list"
  obtain s2 w2 where run: "run_calls ?cs (snd (Connect ?s0 (recorder 0)), []) = Inr (s2, w2)"
    and c1: "Connected s2 1 = Inr False"
    by (simp add: Connect_def new_signal_def Disconnect_def deref_def erase_def Fire_def
        recorder_def Connected_def Let_def)
  have h: "Connect ?s0 (recorder 0) = (0, snd (Connect ?s0 (recorder 0)))"
    by (simp add: Connect_def new_signal_def Let_def)
  have nd: "CallDisconnect 0 \<notin> set ?cs" by simp
  from Connect_starts_Connected[OF h nd run] run c1 show ?thesis by blast
qed

section \<open>Facts about the interleavings\<close>

lemma wait_at_keeps:
  "wait_at p c = Some (e, c') \<Longrightarrow>
   e = Did_wait p \<and> Functions (object c') = Functions (object c) \<and> fpc c' = fpc c
   \<and> pending c' = pending c \<and> env c' = env c"
  by (cases p) (auto split: if_splits)

lemma fire_at_keeps:
  "fire_at p c = Some (e, c') \<Longrightarrow>
   e = Did_fire p \<and> Functions (object c') = Functions (object c)"
  by (cases p) (auto split: if_splits list.splits prod.splits option.splits)

lemma step_Functions:
  "step m c = Some (e, c') \<Longrightarrow> Functions (object c') = Functions (object c)"
  by (cases m) (auto dest: wait_at_keeps fire_at_keeps split: if_splits)

lemma wait_at_awaiting:
  "wait_at (wpc c) c = Some (e, c') \<Longrightarrow> awaiting c \<Longrightarrow> awaiting c'"
  by (cases "wpc c") (auto simp: awaiting_def split: if_splits)

lemma fire_at_awaiting:
  "fire_at p c = Some (e, c') \<Longrightarrow> awaiting c \<Longrightarrow> p \<noteq> F_set \<Longrightarrow> awaiting c'"
  by (cases p) (auto simp: awaiting_def split: if_splits list.splits prod.splits option.splits)

lemma step_awaiting:
  "step m c = Some (e, c') \<Longrightarrow> awaiting c \<Longrightarrow> e \<noteq> Did_fire F_set \<Longrightarrow> awaiting c'"
proof (cases m)
  case Run_waiter
  then show "step m c = Some (e, c') \<Longrightarrow> awaiting c \<Longrightarrow> awaiting c'"
    by (auto dest: wait_at_awaiting)
next
  case Run_firer
  assume s: "step m c = Some (e, c')" and a: "awaiting c" and n: "e \<noteq> Did_fire F_set"
  from s Run_firer have f: "fire_at (fpc c) c = Some (e, c')" by simp
  then have "e = Did_fire (fpc c)" by (auto dest: fire_at_keeps)
  with n have "fpc c \<noteq> F_set" by auto
  with f a show "awaiting c'" by (rule fire_at_awaiting)
next
  case Wake_spuriously
  then show "step m c = Some (e, c') \<Longrightarrow> awaiting c \<Longrightarrow> awaiting c'"
    by (auto simp: awaiting_def split: if_splits)
qed

lemma exec_awaiting:
  "exec ms c = Some (es, c') \<Longrightarrow> awaiting c \<Longrightarrow> Did_fire F_set \<notin> set es \<Longrightarrow> awaiting c'"
proof (induction ms arbitrary: c es)
  case Nil
  then show ?case by simp
next
  case (Cons m ms)
  from Cons.prems(1) obtain e c1 es1 where st: "step m c = Some (e, c1)"
    and ex: "exec ms c1 = Some (es1, c')" and es: "es = e # es1"
    by (auto split: option.splits)
  from Cons.prems(3) es have ne: "e \<noteq> Did_fire F_set" and rest: "Did_fire F_set \<notin> set es1" by auto
  from st Cons.prems(2) ne have "awaiting c1" by (rule step_awaiting)
  with ex show ?case using rest by (rule Cons.IH)
qed

lemma step_idle_firer:
  "step m c = Some (e, c') \<Longrightarrow> idle_firer c \<Longrightarrow>
   idle_firer c' \<and> e \<noteq> Did_fire F_invoke \<and> e \<noteq> Did_fire F_set \<and> e \<noteq> Did_fire F_notify
   \<and> env c' = env c"
proof (cases m)
  case Run_waiter
  then show "step m c = Some (e, c') \<Longrightarrow> idle_firer c \<Longrightarrow> ?thesis"
    by (auto simp: idle_firer_def dest!: wait_at_keeps)
next
  case Run_firer
  then show "step m c = Some (e, c') \<Longrightarrow> idle_firer c \<Longrightarrow> ?thesis"
    by (auto simp: idle_firer_def split: list.splits if_splits)
next
  case Wake_spuriously
  then show "step m c = Some (e, c') \<Longrightarrow> idle_firer c \<Longrightarrow> ?thesis"
    by (auto simp: idle_firer_def split: if_splits)
qed

lemma exec_idle_firer:
  "exec ms c = Some (es, c') \<Longrightarrow> idle_firer c \<Longrightarrow>
   idle_firer c' \<and> Did_fire F_invoke \<notin> set es \<and> Did_fire F_set \<notin> set es
   \<and> Did_fire F_notify \<notin> set es \<and> env c' = env c"
proof (induction ms arbitrary: c es)
  case Nil
  then show ?case by simp
next
  case (Cons m ms)
  from Cons.prems(1) obtain e c1 es1 where st: "step m c = Some (e, c1)"
    and ex: "exec ms c1 = Some (es1, c')" and es: "es = e # es1"
    by (auto split: option.splits)
  from step_idle_firer[OF st Cons.prems(2)] have i: "idle_firer c1"
    and e: "e \<noteq> Did_fire F_invoke" "e \<noteq> Did_fire F_set" "e \<noteq> Did_fire F_notify" and w: "env c1 = env c" by simp_all
  from Cons.IH[OF ex i] e w es show ?case by simp
qed

lemma exec_reset_then_set:
  "exec ms c = Some (es, c') \<Longrightarrow> wpc c = W_reset \<Longrightarrow> wpc c' = W_done \<Longrightarrow>
   \<exists>es1 es2 es3. es = es1 @ Did_wait W_reset # es2 @ Did_fire F_set # es3"
proof (induction ms arbitrary: c es)
  case Nil
  then show ?case by simp
next
  case (Cons m ms)
  from Cons.prems(1) obtain e c1 es1 where st: "step m c = Some (e, c1)"
    and ex: "exec ms c1 = Some (es1, c')" and es: "es = e # es1"
    by (auto split: option.splits)
  show ?case
  proof (cases "m = Run_waiter")
    case True
    with st Cons.prems(2) have e: "e = Did_wait W_reset" and a: "awaiting c1"
      by (auto simp: awaiting_def)
    have "Did_fire F_set \<in> set es1"
    proof (rule ccontr)
      assume "Did_fire F_set \<notin> set es1"
      with ex a have "awaiting c'" by (rule exec_awaiting)
      with Cons.prems(3) show False by (simp add: awaiting_def)
    qed
    then obtain es2 es3 where "es1 = es2 @ Did_fire F_set # es3" by (auto dest: split_list)
    with es e have "es = [] @ Did_wait W_reset # es2 @ Did_fire F_set # es3" by simp
    then show ?thesis by blast
  next
    case False
    with st Cons.prems(2) have "wpc c1 = W_reset"
      by (cases m; cases "fpc c") (auto split: if_splits list.splits prod.splits option.splits)
    from Cons.IH[OF ex this Cons.prems(3)] obtain es2 es3 es4 where
      "es1 = es2 @ Did_wait W_reset # es3 @ Did_fire F_set # es4" by blast
    with es have "es = (e # es2) @ Did_wait W_reset # es3 @ Did_fire F_set # es4" by simp
    then show ?thesis by blast
  qed
qed

lemma Fire_empty:
  "Functions s = [] \<Longrightarrow>
   Fire s a w = \<lparr>calls = [], raised = None, notified = False, signal = s, world = w\<rparr>"
  by (simp add: Fire_def)

text \<open>
  The firing thread, run on its own from the entry of a call with the mutex free, does
  what \<open>Fire\<close> above says: the same signal and outside state afterwards, and
  \<^verbatim>\<open>notify_all\<close> executed exactly when \<open>notified\<close>.
\<close>

lemma firer_alone_is_Fire:
  assumes "fpc c = F_entry" and "pending c = a # rest" and "Current c = None"
  shows "\<exists>ms es c'. set ms \<subseteq> {Run_firer} \<and> exec ms c = Some (es, c')
      \<and> fpc c' = F_entry \<and> pending c' = rest \<and> Current c' = None
      \<and> object c' = signal (Fire (object c) a (env c))
      \<and> env c' = world (Fire (object c) a (env c))
      \<and> (Did_fire F_notify \<in> set es) = notified (Fire (object c) a (env c))"
proof (cases "Functions (object c) = []")
  case True
  with assms have "exec [Run_firer] c = Some ([Did_fire F_entry], c\<lparr>pending := rest\<rparr>)"
    by simp
  with True show ?thesis
    by (intro exI[of _ "[Run_firer]"] exI[of _ "[Did_fire F_entry]"] exI[of _ "c\<lparr>pending := rest\<rparr>"])
       (simp add: Fire_def assms)
next
  case False
  obtain cs r w' where inv: "invoke_all (Functions (object c)) a (env c) = (cs, r, w')"
    by (cases "invoke_all (Functions (object c)) a (env c)")
  show ?thesis
  proof (cases r)
    case None
    let ?c' = "c\<lparr>env := w', object := (object c)\<lparr>Idle := True\<rparr>,
                  wpc := (if wpc c = W_blocked then W_woken else wpc c)\<rparr>"
    let ?ms = "[Run_firer, Run_firer, Run_firer, Run_firer, Run_firer, Run_firer]"
    let ?es = "[Did_fire F_entry, Did_fire F_invoke, Did_fire F_lock, Did_fire F_set,
                Did_fire F_notify, Did_fire F_unlock]"
    from assms False inv None have "exec ?ms c = Some (?es, ?c'\<lparr>Current := None, pending := rest, fpc := F_entry\<rparr>)"
      by simp
    with False inv None show ?thesis
      by (intro exI[of _ ?ms] exI[of _ ?es] exI[of _ "?c'\<lparr>Current := None, pending := rest, fpc := F_entry\<rparr>"])
         (simp add: Fire_def assms)
  next
    case (Some e)
    let ?ms = "[Run_firer, Run_firer, Run_firer]"
    let ?es = "[Did_fire F_entry, Did_fire F_invoke, Did_fire F_thrown]"
    from assms False inv Some have "exec ?ms c = Some (?es, c\<lparr>env := w', pending := rest, fpc := F_entry\<rparr>)"
      by simp
    with False inv Some show ?thesis
      by (intro exI[of _ ?ms] exI[of _ ?es] exI[of _ "c\<lparr>env := w', pending := rest, fpc := F_entry\<rparr>"])
         (simp add: Fire_def assms)
  qed
qed

text \<open>
  A waiter that cannot leave \<^verbatim>\<open>Wait\<close> as things stand never will, once the firing thread
  has no call left to make.
\<close>

lemma stranded_forever:
  "exec ms c = Some (es, c') \<Longrightarrow> awaiting c \<Longrightarrow> fpc c = F_entry \<Longrightarrow> pending c = [] \<Longrightarrow>
   awaiting c' \<and> wpc c' \<noteq> W_done"
proof -
  assume ex: "exec ms c = Some (es, c')" and a: "awaiting c" and "fpc c = F_entry" "pending c = []"
  then have "idle_firer c" by (simp add: idle_firer_def)
  from exec_idle_firer[OF ex this] have "Did_fire F_set \<notin> set es" by simp
  with ex a have "awaiting c'" by (rule exec_awaiting)
  then show ?thesis by (auto simp: awaiting_def)
qed

section \<open>The claims about two threads\<close>

text \<open>
  C5. On a signal with no listener, \<^verbatim>\<open>Fire\<close> returns at once: no call, no exception, no
  \<^verbatim>\<open>notify_all\<close>, the signal (\<^verbatim>\<open>Idle\<close> included) and the outside state as they were. In
  any interleaving with a waiter that is inside \<^verbatim>\<open>Wait\<close>, however many such \<^verbatim>\<open>Fire\<close>
  calls are made, no listener is invoked, \<^verbatim>\<open>Idle = true\<close> and \<^verbatim>\<open>notify_all\<close> are never
  executed, and the waiter is still inside \<^verbatim>\<open>Wait\<close>.
\<close>

theorem Fire_empty_is_noop:
  assumes "Functions (object c) = []"
    and "fpc c = F_entry"
    and "awaiting c"
    and "exec ms c = Some (es, c')"
  shows "Fire (object c) a w
           = \<lparr>calls = [], raised = None, notified = False, signal = object c, world = w\<rparr>
       \<and> Did_fire F_invoke \<notin> set es \<and> Did_fire F_set \<notin> set es \<and> Did_fire F_notify \<notin> set es
       \<and> env c' = env c \<and> awaiting c' \<and> wpc c' \<noteq> W_done"
proof -
  from assms(1,2) have i: "idle_firer c" by (simp add: idle_firer_def)
  from exec_idle_firer[OF assms(4) i] have inv: "Did_fire F_invoke \<notin> set es"
    and n: "Did_fire F_set \<notin> set es" "Did_fire F_notify \<notin> set es" "env c' = env c"
    by simp_all
  from assms(4,3) n(1) have a: "awaiting c'" by (rule exec_awaiting)
  then have d: "wpc c' \<noteq> W_done" by (auto simp: awaiting_def)
  from Fire_empty[OF assms(1)] n a d inv show ?thesis by simp
qed

theorem Fire_empty_is_noop_witness:
  "\<exists>es c'. exec [Run_waiter, Run_waiter, Run_waiter, Run_firer, Wake_spuriously, Run_waiter, Run_waiter]
              (start (new_signal :: test_signal) [] [''Blue'']) = Some (es, c')
     \<and> Fire (new_signal :: test_signal) ''Blue'' []
         = \<lparr>calls = [], raised = None, notified = False, signal = new_signal, world = []\<rparr>
     \<and> Did_fire F_notify \<notin> set es \<and> wpc c' = W_blocked \<and> pending c' = [] \<and> env c' = []"
proof -
  let ?c = "start (new_signal :: test_signal) [] [''Blue'']"
  obtain es c' where ex: "exec [Run_waiter, Run_waiter, Run_waiter, Run_firer, Wake_spuriously,
      Run_waiter, Run_waiter] ?c = Some (es, c')"
    and w: "wpc c' = W_blocked" and p: "pending c' = []"
    by (simp add: start_def new_signal_def)
  have 1: "Functions (object ?c) = []" by (simp add: start_def new_signal_def)
  have 2: "fpc ?c = F_entry" by (simp add: start_def)
  have 3: "awaiting ?c" by (simp add: start_def awaiting_def)
  have o: "object ?c = new_signal" and e: "env ?c = []" by (simp_all add: start_def)
  note T = Fire_empty_is_noop[OF 1 2 3 ex, of "''Blue''" "[]"]
  from T have a: "Fire (new_signal :: test_signal) ''Blue'' []
         = \<lparr>calls = [], raised = None, notified = False, signal = new_signal, world = []\<rparr>"
    by (simp add: o)
  from T have b: "Did_fire F_notify \<notin> set es" by (elim conjE)
  from T have d: "env c' = []" by (simp add: e)
  show ?thesis
    by (intro exI[of _ es] exI[of _ c'] conjI) (rule ex a b w p d)+
qed

text \<open>
  C7. A \<^verbatim>\<open>Wait\<close> that begins when no \<^verbatim>\<open>Fire\<close> is under way, whatever \<^verbatim>\<open>Idle\<close> an
  earlier \<^verbatim>\<open>Fire\<close> has left, returns only in runs where it first resets \<^verbatim>\<open>Idle\<close> and a
  \<^verbatim>\<open>Fire\<close> executes \<^verbatim>\<open>Idle = true\<close> after that; this takes a \<^verbatim>\<open>Fire\<close> call made after
  the \<^verbatim>\<open>Wait\<close> began, on a signal that has a listener.
\<close>

theorem Wait_no_buffered_fire:
  assumes "wpc c = W_reset"
    and "fpc c = F_entry"
    and "exec ms c = Some (es, c')"
    and "wpc c' = W_done"
  shows "(\<exists>es1 es2 es3. es = es1 @ Did_wait W_reset # es2 @ Did_fire F_set # es3)
       \<and> Functions (object c) \<noteq> [] \<and> pending c \<noteq> []"
proof -
  from assms(3,1,4) have tr: "\<exists>es1 es2 es3. es = es1 @ Did_wait W_reset # es2 @ Did_fire F_set # es3"
    by (rule exec_reset_then_set)
  then have s: "Did_fire F_set \<in> set es" by auto
  have "\<not> idle_firer c"
  proof
    assume "idle_firer c"
    from exec_idle_firer[OF assms(3) this] s show False by simp
  qed
  with assms(2) have "Functions (object c) \<noteq> [] \<and> pending c \<noteq> []" by (simp add: idle_firer_def)
  with tr show ?thesis by simp
qed

theorem Wait_no_buffered_fire_witness:
  "\<exists>s es c'. s = signal (Fire (\<lparr>Functions = [recorder 0], Connections = [0], Idle = False,
                   Heap = [Some \<lparr>Index = 0, isConnected = True\<rparr>]\<rparr> :: test_signal) ''Red'' [])
     \<and> Idle s = True
     \<and> exec [Run_waiter, Run_waiter, Run_waiter,
              Run_firer, Run_firer, Run_firer, Run_firer, Run_firer, Run_firer,
              Run_waiter, Run_waiter, Run_waiter] (start s [] [''Blue'']) = Some (es, c')
     \<and> wpc c' = W_done
     \<and> (\<exists>es1 es2 es3. es = es1 @ Did_wait W_reset # es2 @ Did_fire F_set # es3)
     \<and> Functions s \<noteq> []"
proof -
  let ?s = "signal (Fire (\<lparr>Functions = [recorder 0], Connections = [0], Idle = False,
                   Heap = [Some \<lparr>Index = 0, isConnected = True\<rparr>]\<rparr> :: test_signal) ''Red'' [])"
  have sv: "?s = \<lparr>Functions = [recorder 0], Connections = [0], Idle = True,
                   Heap = [Some \<lparr>Index = 0, isConnected = True\<rparr>]\<rparr>"
    by (simp add: Fire_def recorder_def)
  have i: "Idle ?s = True" by (simp add: sv)
  let ?c = "start ?s [] [''Blue'']"
  obtain es c' where ex: "exec [Run_waiter, Run_waiter, Run_waiter,
              Run_firer, Run_firer, Run_firer, Run_firer, Run_firer, Run_firer,
              Run_waiter, Run_waiter, Run_waiter] ?c = Some (es, c')"
    and w: "wpc c' = W_done"
    unfolding sv by (simp add: start_def recorder_def)
  have 1: "wpc ?c = W_reset" and 2: "fpc ?c = F_entry" by (simp_all add: start_def)
  have o: "object ?c = ?s" by (simp add: start_def)
  note T = Wait_no_buffered_fire[OF 1 2 ex w]
  from T have a: "\<exists>es1 es2 es3. es = es1 @ Did_wait W_reset # es2 @ Did_fire F_set # es3"
    by (elim conjE)
  from T have "Functions (object ?c) \<noteq> []" by (elim conjE)
  with o have b: "Functions ?s \<noteq> []" by simp
  show ?thesis
    by (rule exI[of _ ?s], rule exI[of _ es], rule exI[of _ c'], intro conjI)
       (rule refl i ex w a b)+
qed

text \<open>
  C8. The wake-up of a \<^verbatim>\<open>Fire\<close> should never be lost between the reset of \<^verbatim>\<open>Idle\<close> in
  \<^verbatim>\<open>Wait\<close> and its block. \<^verbatim>\<open>Wait\<close> resets \<^verbatim>\<open>Idle\<close> before it takes the mutex, so the
  reset can fall between \<^verbatim>\<open>Idle = true\<close> and \<^verbatim>\<open>notify_all\<close> of a \<^verbatim>\<open>Fire\<close> that holds
  the mutex. In the run below, on a signal with one listener, one \<^verbatim>\<open>Wait\<close> and one
  \<^verbatim>\<open>Fire\<close>: the notification finds no one blocked, the waiter then reads \<^verbatim>\<open>Idle\<close> as
  \<^verbatim>\<open>false\<close> and blocks; the \<^verbatim>\<open>Fire\<close> has returned, neither thread has a step left, and
  a spurious wake-up only leads back to the same blocked state (by \<open>stranded_forever\<close>, no
  continuation of the run lets the waiter return).
\<close>

theorem Wait_lost_wakeup:
  "exec [Run_firer, Run_firer, Run_firer, Run_firer, Run_waiter, Run_firer, Run_firer,
         Run_waiter, Run_waiter]
     (start (\<lparr>Functions = [recorder 0], Connections = [0], Idle = False,
              Heap = [Some \<lparr>Index = 0, isConnected = True\<rparr>]\<rparr> :: test_signal) [] [''Blue''])
   = Some ([Did_fire F_entry, Did_fire F_invoke, Did_fire F_lock, Did_fire F_set,
            Did_wait W_reset, Did_fire F_notify, Did_fire F_unlock,
            Did_wait W_lock, Did_wait W_check],
           \<lparr>object = \<lparr>Functions = [recorder 0], Connections = [0], Idle = False,
              Heap = [Some \<lparr>Index = 0, isConnected = True\<rparr>]\<rparr>,
            env = [(0, ''Blue'')], Current = None, wpc = W_blocked, fpc = F_entry, pending = []\<rparr>)
   \<and> awaiting
       (\<lparr>object = \<lparr>Functions = [recorder 0], Connections = [0], Idle = False,
              Heap = [Some \<lparr>Index = 0, isConnected = True\<rparr>]\<rparr> :: test_signal,
         env = [(0, ''Blue'')], Current = None, wpc = W_blocked, fpc = F_entry, pending = []\<rparr>)
   \<and> step Run_waiter
       (\<lparr>object = \<lparr>Functions = [recorder 0], Connections = [0], Idle = False,
              Heap = [Some \<lparr>Index = 0, isConnected = True\<rparr>]\<rparr> :: test_signal,
         env = [(0, ''Blue'')], Current = None, wpc = W_blocked, fpc = F_entry, pending = []\<rparr>) = None
   \<and> step Run_firer
       (\<lparr>object = \<lparr>Functions = [recorder 0], Connections = [0], Idle = False,
              Heap = [Some \<lparr>Index = 0, isConnected = True\<rparr>]\<rparr> :: test_signal,
         env = [(0, ''Blue'')], Current = None, wpc = W_blocked, fpc = F_entry, pending = []\<rparr>) = None
   \<and> exec [Wake_spuriously, Run_waiter, Run_waiter]
       (\<lparr>object = \<lparr>Functions = [recorder 0], Connections = [0], Idle = False,
              Heap = [Some \<lparr>Index = 0, isConnected = True\<rparr>]\<rparr> :: test_signal,
         env = [(0, ''Blue'')], Current = None, wpc = W_blocked, fpc = F_entry, pending = []\<rparr>)
     = Some ([Spurious_wakeup, Did_wait W_woken, Did_wait W_check],
         \<lparr>object = \<lparr>Functions = [recorder 0], Connections = [0], Idle = False,
              Heap = [Some \<lparr>Index = 0, isConnected = True\<rparr>]\<rparr>,
         env = [(0, ''Blue'')], Current = None, wpc = W_blocked, fpc = F_entry, pending = []\<rparr>)"
  by (simp add: start_def recorder_def awaiting_def)

end
